theory Spec2Isabelle
  imports Main "HOL-Library.Finite_Map" "HOL-Library.List_Lexorder" "HOL-Library.Char_ord"
begin

section \<open>The node binding state (program.go, lines 55-85)\<close>

text \<open>
  The struct \<open>node\<close> holds two flags and the dependency slice. The element type of the
  slice is the interface \<open>Node\<close>; it is a type parameter here, since none of the
  operations below looks inside a dependency.
\<close>

record 'n node =
  binding :: bool
  bound :: bool
  deps :: "'n list"

text \<open>The zero value of the struct, as Go allocates it: both flags false, no dependencies.\<close>

definition newNode :: "'n node" where
  "newNode = \<lparr>binding = False, bound = False, deps = []\<rparr>"

definition markBinding :: "'n node \<Rightarrow> 'n node" where
  "markBinding r = r\<lparr>binding := True\<rparr>"

definition markBound :: "'n node \<Rightarrow> 'n node" where
  "markBound r = r\<lparr>bound := True\<rparr>"

definition isBinding :: "'n node \<Rightarrow> bool" where
  "isBinding r = (binding r \<and> \<not> bound r)"

definition isBound :: "'n node \<Rightarrow> bool" where
  "isBound r = bound r"

definition getDependencies :: "'n node \<Rightarrow> 'n list" where
  "getDependencies r = deps r"

definition setDependencies :: "'n node \<Rightarrow> 'n list \<Rightarrow> 'n node" where
  "setDependencies r nodes = r\<lparr>deps := nodes\<rparr>"

text \<open>
  A sequence of calls of the two marking methods on one node, applied from left to
  right.
\<close>

datatype call = MarkBinding | MarkBound

fun applyCall :: "'n node \<Rightarrow> call \<Rightarrow> 'n node" where
  "applyCall r MarkBinding = markBinding r"
| "applyCall r MarkBound = markBound r"

definition runCalls :: "call list \<Rightarrow> 'n node \<Rightarrow> 'n node" where
  "runCalls cs r = foldl applyCall r cs"

section \<open>Packages and package references\<close>

text \<open>
  Modelled from the spec: \<open>schema.Package\<close> is declared in the schema package, whose
  source is not part of this development. The functions below read only its \<open>Name\<close>;
  \<open>Version\<close> and the names of its \<open>Types\<close> stand for the rest of the schema, so that
  two packages of one name can differ, and a snapshot can differ from the full definition.
\<close>

record Package =
  Name :: string
  Version :: string
  Types :: "string list"

text \<open>
  Go errors. \<open>Errorf msg err\<close> is \<open>fmt.Errorf(msg + ": %w", err)\<close>: a message that wraps
  \<open>err\<close>. \<open>Error\<close> renders the text as Go does.
\<close>

datatype error = ErrorString string | Errorf string error

fun Error :: "error \<Rightarrow> string" where
  "Error (ErrorString s) = s"
| "Error (Errorf msg err) = msg @ '': '' @ Error err"

text \<open>A call either returns or panics with an error value.\<close>

datatype 'a outcome = Panic error | Return 'a

text \<open>
  Modelled from the spec: \<open>schema.PackageReference\<close> is an interface of the schema
  package, implemented by full references and by \<open>*schema.PartialPackage\<close>; a reference
  resolves through the schema loader, which is not part of this development. A reference
  carries what its methods return: \<open>RefName\<close> is \<open>Name()\<close>, \<open>Definition\<close> is what
  \<open>Definition()\<close> returns (\<open>Inl\<close> the error, \<open>Inr\<close> the package), and a partial package
  also has the result of \<open>Snapshot()\<close>. The loader is taken to answer the same on every
  call, and a reference is never nil.
\<close>

datatype PackageReference =
    FullPackage (RefName: string) (Definition: "error + Package")
  | PartialPackage (RefName: string) (Definition: "error + Package")
      (Snapshot: "error + Package")

text \<open>
  The part of the binder that the program reads: the Go map from package key to
  reference.
\<close>

datatype Binder = Binder (referencedPackages: "(string, PackageReference) fmap")

section \<open>Programs\<close>

type_synonym bytes = "char list"

text \<open>\<open>syntax.File\<close>: of a parsed file the program reads the name and the raw bytes.\<close>

record SyntaxFile =
  Name :: string
  Bytes :: bytes

text \<open>
  The node variants are structs declared elsewhere in the package. The functions below
  only switch on the variant (the discriminators \<open>isConfigVariable\<close> and so on are the
  cases of the type switch); of a component they read \<open>source\<close>, \<open>DirPath()\<close> and the
  nested \<open>Program\<close>. The other variants carry their name. The constructor of a program
  is \<open>MkProgram\<close>, since \<open>Program\<close> is the field of a component, and its field for the
  binder is \<open>programBinder\<close>, since the Go name is a keyword of Isabelle.
\<close>

datatype ConfigVariable = ConfigVariable string

datatype LocalVariable = LocalVariable string

datatype Resource = Resource string

datatype OutputVariable = OutputVariable string

datatype Node =
    isConfigVariable: ConfigVariableNode ConfigVariable
  | isLocalVariable: LocalVariableNode LocalVariable
  | isResource: ResourceNode Resource
  | isComponent: ComponentNode Component
  | isOutputVariable: OutputVariableNode OutputVariable
and Component =
    Component (name: string) (source: string) (dirPath: string) (Program: Program)
and Program =
    MkProgram (Nodes: "Node list") (files: "SyntaxFile list") (programBinder: Binder)

text \<open>Modelled from the spec: \<open>DirPath()\<close> returns the component's directory.\<close>

definition DirPath :: "Component \<Rightarrow> string" where
  "DirPath c = dirPath c"

section \<open>Package references and snapshots (program.go, lines 106-163)\<close>

text \<open>
  Lines 122-126 and 139-143: the keys of the map, collected by \<open>range\<close> in whatever order
  the runtime yields them, then sorted by \<open>sort.Strings\<close>. The sorted list does not
  depend on the order of collection (lemma \<open>sort_keys_any_order\<close> below).
\<close>

definition sortedKeys :: "(string, 'v) fmap \<Rightarrow> string list" where
  "sortedKeys m = sorted_list_of_fset (fmdom m)"

text \<open>
  Lines 129-131: \<open>m[k]\<close> for each key in turn. Every key comes from the map itself, so
  no lookup misses (lemma \<open>length_lookupKeys\<close> below).
\<close>

definition lookupKeys :: "(string, 'v) fmap \<Rightarrow> string list \<Rightarrow> 'v list" where
  "lookupKeys m keys = List.map_filter (fmlookup m) keys"

definition PackageReferences :: "Program \<Rightarrow> PackageReference list" where
  "PackageReferences p =
     (let m = referencedPackages (programBinder p) in lookupKeys m (sortedKeys m))"

text \<open>Lines 110-116: the loop of \<open>Packages\<close>, filling \<open>defs\<close> slot by slot.\<close>

fun packagesLoop ::
  "nat \<Rightarrow> PackageReference list \<Rightarrow> Package option list \<Rightarrow> Package option list outcome" where
  "packagesLoop i [] defs = Return defs"
| "packagesLoop i (ref # refs) defs =
     (case Definition ref of
        Inl err \<Rightarrow> Panic (Errorf ''loading package definition'' err)
      | Inr def \<Rightarrow>
          if i < length defs then packagesLoop (Suc i) refs (defs[i := Some def])
          else Panic (ErrorString ''runtime error: index out of range''))"

text \<open>
  The result is a slice of package pointers; \<open>None\<close> is the nil pointer \<open>make\<close> fills
  the slice with. An assignment past the end of a slice panics in Go.
\<close>

definition Packages :: "Program \<Rightarrow> Package option list outcome" where
  "Packages p =
     (let refs = PackageReferences p;
          defs = replicate (length refs) None
      in packagesLoop 0 refs defs)"

text \<open>Lines 149-155: a partial package is snapshot, any other reference is defined.\<close>

fun resolve :: "PackageReference \<Rightarrow> error + Package" where
  "resolve (PartialPackage n d s) = s"
| "resolve (FullPackage n d) = d"

definition quoted :: "string \<Rightarrow> string" where
  "quoted s = [CHR 0x27] @ s @ [CHR 0x27]"

text \<open>
  Lines 146-162. The result is the Go pair: the slice (\<open>None\<close> is nil) and the error
  (\<open>None\<close> is nil).
\<close>

fun snapshotsLoop ::
  "PackageReference list \<Rightarrow> Package list \<Rightarrow> Package list option \<times> error option" where
  "snapshotsLoop [] values = (Some values, None)"
| "snapshotsLoop (ref # refs) values =
     (case resolve ref of
        Inl err \<Rightarrow> (None, Some (Errorf (''defining package '' @ quoted (RefName ref)) err))
      | Inr pkg \<Rightarrow> snapshotsLoop refs (values @ [pkg]))"

definition PackageSnapshots :: "Program \<Rightarrow> Package list option \<times> error option" where
  "PackageSnapshots p =
     (let m = referencedPackages (programBinder p)
      in snapshotsLoop (lookupKeys m (sortedKeys m)) [])"

text \<open>
  Modelled from the spec: the binder, which is not part of this development, builds the
  map incrementally, storing each reference under its key as declarations are bound.
\<close>

definition insertAll :: "(string \<times> PackageReference) list \<Rightarrow> (string, PackageReference) fmap" where
  "insertAll ins = foldl (\<lambda>m (k, ref). fmupd k ref m) fmempty ins"

section \<open>Source files (program.go, lines 165-215)\<close>

record ProgramFile =
  FileName :: string
  Content :: bytes

text \<open>The two pointers of \<open>ProgramFileOrDirectory\<close> are options: \<open>None\<close> is nil.\<close>

datatype ProgramDirectory =
    ProgramDirectory (Path: string) (Entries: "ProgramFileOrDirectory list")
and ProgramFileOrDirectory =
    ProgramFileOrDirectory (File: "ProgramFile option") (Directory: "ProgramDirectory option")

text \<open>Lines 192-199: one entry is appended for each file of the program.\<close>

fun fileEntriesLoop ::
  "SyntaxFile list \<Rightarrow> ProgramFileOrDirectory list \<Rightarrow> ProgramFileOrDirectory list" where
  "fileEntriesLoop [] entries = entries"
| "fileEntriesLoop (file # fs) entries =
     fileEntriesLoop fs
       (entries @ [ProgramFileOrDirectory
          (Some \<lparr>FileName = SyntaxFile.Name file, Content = Bytes file\<rparr>) None])"

text \<open>
  Lines 190-215. \<open>filepath.Join\<close> belongs to the Go standard library; it is the
  parameter \<open>Join\<close>. The loop of lines 201-209 appends one directory entry for each
  component node and passes over every other node.
\<close>

function (sequential) SourceFiles ::
    "(string \<Rightarrow> string \<Rightarrow> string) \<Rightarrow> Program \<Rightarrow> string \<Rightarrow> ProgramDirectory"
  and componentEntriesLoop ::
    "(string \<Rightarrow> string \<Rightarrow> string) \<Rightarrow> Node list \<Rightarrow> string \<Rightarrow> ProgramFileOrDirectory list
      \<Rightarrow> ProgramFileOrDirectory list" where
  "SourceFiles Join p directory =
     ProgramDirectory directory
       (componentEntriesLoop Join (Nodes p) directory (fileEntriesLoop (files p) []))"
| "componentEntriesLoop Join [] directory entries = entries"
| "componentEntriesLoop Join (ComponentNode node # ns) directory entries =
     (let componentDirectory = Join directory (source node)
      in componentEntriesLoop Join ns directory
           (entries @ [ProgramFileOrDirectory None
              (Some (SourceFiles Join (Program node) componentDirectory))]))"
| "componentEntriesLoop Join (_ # ns) directory entries =
     componentEntriesLoop Join ns directory entries"
  by pat_completeness auto
termination
proof (relation "measure (\<lambda>x. case x of
    Inl (_, p, _) \<Rightarrow> size p | Inr (_, ns, _) \<Rightarrow> size_list size ns)", goal_cases)
  case 1
  show ?case by simp
next
  case (2 Join p directory)
  show ?case by (cases p) simp
next
  case (3 Join node ns directory entries x)
  show ?case by (cases node) simp
qed simp_all

text \<open>The component nodes of a node list, in declaration order.\<close>

fun componentNodes :: "Node list \<Rightarrow> Component list" where
  "componentNodes [] = []"
| "componentNodes (ComponentNode node # ns) = node # componentNodes ns"
| "componentNodes (_ # ns) = componentNodes ns"

text \<open>
  \<open>filepath.Join\<close> for two elements on Unix, written from the documentation of the Go
  standard library: the elements are joined by a slash, starting at the first one that
  is not empty, and the result is cleaned. \<open>Clean\<close> drops empty and \<open>.\<close> elements,
  cancels an inner \<open>..\<close> against the element before it, drops a \<open>..\<close> at the root, and
  turns the empty path into \<open>.\<close>. It serves the examples only: the theorems about
  \<open>SourceFiles\<close> hold for every \<open>Join\<close>.
\<close>

fun splitSlash :: "string \<Rightarrow> string list" where
  "splitSlash [] = [[]]"
| "splitSlash (c # cs) =
     (if c = CHR ''/'' then [] # splitSlash cs
      else (case splitSlash cs of [] \<Rightarrow> [[c]] | e # es \<Rightarrow> (c # e) # es))"

fun joinSlash :: "string list \<Rightarrow> string" where
  "joinSlash [] = []"
| "joinSlash [e] = e"
| "joinSlash (e # es) = e @ ''/'' @ joinSlash es"

fun cleanElements :: "bool \<Rightarrow> string list \<Rightarrow> string list \<Rightarrow> string list" where
  "cleanElements rooted [] out = rev out"
| "cleanElements rooted (e # es) out =
     (if e = [] \<or> e = ''.'' then cleanElements rooted es out
      else if e = ''..'' then
        (case out of
           e0 # below \<Rightarrow>
             if e0 \<noteq> ''..'' then cleanElements rooted es below
             else cleanElements rooted es (''..'' # out)
         | [] \<Rightarrow>
             if rooted then cleanElements rooted es out
             else cleanElements rooted es [''..''])
      else cleanElements rooted es (e # out))"

definition Clean :: "string \<Rightarrow> string" where
  "Clean path =
     (if path = [] then ''.''
      else (let rooted = (hd path = CHR ''/'');
                body = joinSlash (cleanElements rooted (splitSlash path) [])
            in if rooted then CHR ''/'' # body
               else if body = [] then ''.'' else body))"

definition filepathJoin :: "string \<Rightarrow> string \<Rightarrow> string" where
  "filepathJoin a b =
     (if a \<noteq> [] then Clean (a @ ''/'' @ b)
      else if b \<noteq> [] then Clean b
      else [])"

section \<open>Config and output variables (program.go, lines 267-291)\<close>

fun configVarsLoop :: "Node list \<Rightarrow> ConfigVariable list \<Rightarrow> ConfigVariable list" where
  "configVarsLoop [] configVars = configVars"
| "configVarsLoop (ConfigVariableNode node # ns) configVars =
     configVarsLoop ns (configVars @ [node])"
| "configVarsLoop (_ # ns) configVars = configVarsLoop ns configVars"

definition ConfigVariables :: "Program \<Rightarrow> ConfigVariable list" where
  "ConfigVariables p = configVarsLoop (Nodes p) []"

fun outputsLoop :: "Node list \<Rightarrow> OutputVariable list \<Rightarrow> OutputVariable list" where
  "outputsLoop [] outputs = outputs"
| "outputsLoop (OutputVariableNode node # ns) outputs = outputsLoop ns (outputs @ [node])"
| "outputsLoop (_ # ns) outputs = outputsLoop ns outputs"

definition OutputVariables :: "Program \<Rightarrow> OutputVariable list" where
  "OutputVariables p = outputsLoop (Nodes p) []"

section \<open>Collecting components (program.go, lines 217-237)\<close>

text \<open>
  The map \<open>components\<close> is mutated in place by the Go code; here it is passed in and
  returned. \<open>collectComponentsLoop\<close> is the loop over \<open>p.Nodes\<close>.
\<close>

function (sequential) collectComponentsRecursive ::
    "Program \<Rightarrow> (string, Component) fmap \<Rightarrow> (string, Component) fmap"
  and collectComponentsLoop ::
    "Node list \<Rightarrow> (string, Component) fmap \<Rightarrow> (string, Component) fmap" where
  "collectComponentsRecursive p components = collectComponentsLoop (Nodes p) components"
| "collectComponentsLoop [] components = components"
| "collectComponentsLoop (ComponentNode node # ns) components =
     (if DirPath node |\<in>| fmdom components then collectComponentsLoop ns components
      else collectComponentsLoop ns
             (collectComponentsRecursive (Program node)
                (fmupd (DirPath node) node components)))"
| "collectComponentsLoop (_ # ns) components = collectComponentsLoop ns components"
  by pat_completeness auto
termination
proof (relation "measure (\<lambda>x. case x of
    Inl (p, _) \<Rightarrow> size p | Inr (ns, _) \<Rightarrow> size_list size ns)", goal_cases)
  case 1
  show ?case by simp
next
  case (2 p components)
  show ?case by (cases p) simp
next
  case (4 node ns components)
  show ?case by (cases node) simp
qed simp_all

definition CollectComponents :: "Program \<Rightarrow> (string, Component) fmap" where
  "CollectComponents p = collectComponentsRecursive p fmempty"

text \<open>
  The same walk with a log: each time the walk stores a component and descends into
  its program, the component is appended to the log. The map is computed as above
  (lemma \<open>logged_components\<close> below).
\<close>

function (sequential) collectComponentsLogged ::
    "Program \<Rightarrow> (string, Component) fmap \<Rightarrow> Component list
      \<Rightarrow> (string, Component) fmap \<times> Component list"
  and collectLoopLogged ::
    "Node list \<Rightarrow> (string, Component) fmap \<Rightarrow> Component list
      \<Rightarrow> (string, Component) fmap \<times> Component list" where
  "collectComponentsLogged p components log = collectLoopLogged (Nodes p) components log"
| "collectLoopLogged [] components log = (components, log)"
| "collectLoopLogged (ComponentNode node # ns) components log =
     (if DirPath node |\<in>| fmdom components then collectLoopLogged ns components log
      else (case collectComponentsLogged (Program node)
                   (fmupd (DirPath node) node components) (log @ [node]) of
              (components', log') \<Rightarrow> collectLoopLogged ns components' log'))"
| "collectLoopLogged (_ # ns) components log = collectLoopLogged ns components log"
  by pat_completeness auto
termination
proof (relation "measure (\<lambda>x. case x of
    Inl (p, _, _) \<Rightarrow> size p | Inr (ns, _, _) \<Rightarrow> size_list size ns)", goal_cases)
  case 1
  show ?case by simp
next
  case (2 p components log)
  show ?case by (cases p) simp
next
  case (4 node ns components log)
  show ?case by (cases node) simp
qed simp_all

definition descents :: "Program \<Rightarrow> Component list" where
  "descents p = snd (collectComponentsLogged p fmempty [])"

text \<open>Every component of the tree of programs, nested ones included.\<close>

function (sequential) allComponents :: "Program \<Rightarrow> Component list"
  and componentsBelow :: "Node list \<Rightarrow> Component list" where
  "allComponents p = componentsBelow (Nodes p)"
| "componentsBelow [] = []"
| "componentsBelow (ComponentNode node # ns) =
     node # allComponents (Program node) @ componentsBelow ns"
| "componentsBelow (_ # ns) = componentsBelow ns"
  by pat_completeness auto
termination
proof (relation "measure (\<lambda>x. case x of
    Inl p \<Rightarrow> size p | Inr ns \<Rightarrow> size_list size ns)", goal_cases)
  case 1
  show ?case by simp
next
  case (2 p)
  show ?case by (cases p) simp
next
  case (3 node ns)
  show ?case by (cases node) simp
qed simp_all

text \<open>
  A component's program is what its directory holds: in a tree built from source
  directories, two components of one directory have the same program.
\<close>

definition consistent :: "Program \<Rightarrow> bool" where
  "consistent p =
     (\<forall>c\<in>set (allComponents p). \<forall>c'\<in>set (allComponents p).
        DirPath c = DirPath c' \<longrightarrow> Program c = Program c')"

section \<open>Collecting package snapshots (program.go, lines 239-265)\<close>







section \<open>Example programs\<close>

definition awsFull :: Package where
  "awsFull = \<lparr>Package.Name = ''aws'', Version = ''1'', Types = [''Bucket'', ''Topic'']\<rparr>"

definition awsPruned :: Package where
  "awsPruned = \<lparr>Package.Name = ''aws'', Version = ''1'', Types = [''Bucket'']\<rparr>"

definition randomFull :: Package where
  "randomFull = \<lparr>Package.Name = ''random'', Version = ''4'', Types = [''RandomPet'']\<rparr>"

definition awsRef :: PackageReference where
  "awsRef = PartialPackage ''aws'' (Inr awsFull) (Inr awsPruned)"

definition randomRef :: PackageReference where
  "randomRef = FullPackage ''random'' (Inr randomFull)"

text \<open>A partial package whose snapshot fails, and a full one whose definition fails.\<close>

definition azureRef :: PackageReference where
  "azureRef = PartialPackage ''azure''
     (Inr \<lparr>Package.Name = ''azure'', Version = ''2'', Types = []\<rparr>)
     (Inl (ErrorString ''schema not found''))"

definition gcpRef :: PackageReference where
  "gcpRef = FullPackage ''gcp'' (Inl (ErrorString ''plugin not installed''))"

text \<open>Two packages, found in the order random, aws.\<close>

definition twoPackages :: Program where
  "twoPackages = MkProgram [] [] (Binder (insertAll [(''random'', randomRef), (''aws'', awsRef)]))"

definition brokenSnapshot :: Program where
  "brokenSnapshot = MkProgram [] []
     (Binder (insertAll [(''random'', randomRef), (''azure'', azureRef), (''aws'', awsRef)]))"

definition brokenDefinition :: Program where
  "brokenDefinition = MkProgram [] []
     (Binder (insertAll [(''random'', randomRef), (''gcp'', gcpRef), (''aws'', awsRef)]))"

text \<open>
  A program with the file \<open>main.pp\<close>, declaring a config variable, a component at
  \<open>./mymodule\<close>, a resource and two outputs; the component's program has one file.
\<close>

definition mymodule :: Component where
  "mymodule = Component ''mymodule'' ''./mymodule'' ''/work/mymodule''
     (MkProgram [LocalVariableNode (LocalVariable ''prefix'')]
        [\<lparr>SyntaxFile.Name = ''mymodule.pp'', Bytes = ''locals''\<rparr>]
        (Binder fmempty))"

definition mainProgram :: Program where
  "mainProgram = MkProgram
     [ConfigVariableNode (ConfigVariable ''region''),
      OutputVariableNode (OutputVariable ''url''),
      ComponentNode mymodule,
      ResourceNode (Resource ''bucket''),
      ConfigVariableNode (ConfigVariable ''zone''),
      OutputVariableNode (OutputVariable ''arn'')]
     [\<lparr>SyntaxFile.Name = ''main.pp'', Bytes = ''config''\<rparr>]
     (Binder fmempty)"

text \<open>
  A program with two declarations of the component at \<open>./mymodule\<close>; the component's
  program declares a component of its own.
\<close>

definition innerModule :: Component where
  "innerModule = Component ''inner'' ''./inner'' ''mymodule/inner''
     (MkProgram [] [\<lparr>SyntaxFile.Name = ''inner.pp'', Bytes = []\<rparr>] (Binder fmempty))"

definition moduleProgram :: Program where
  "moduleProgram = MkProgram
     [LocalVariableNode (LocalVariable ''prefix''), ComponentNode innerModule]
     [\<lparr>SyntaxFile.Name = ''mymodule.pp'', Bytes = ''locals''\<rparr>]
     (Binder fmempty)"

definition firstUse :: Component where
  "firstUse = Component ''first'' ''./mymodule'' ''./mymodule'' moduleProgram"

definition secondUse :: Component where
  "secondUse = Component ''second'' ''./mymodule'' ''./mymodule'' moduleProgram"

definition twoUses :: Program where
  "twoUses = MkProgram
     [ComponentNode firstUse, ResourceNode (Resource ''bucket''), ComponentNode secondUse]
     [\<lparr>SyntaxFile.Name = ''main.pp'', Bytes = ''config''\<rparr>]
     (Binder fmempty)"






text \<open>
  A program with two declarations of components at the directory \<open>/w/a\<close> whose programs
  differ: the first declares a component at \<open>/w/a/x\<close>, the second one at \<open>/w/a/y\<close>.
\<close>

definition leafX :: Component where
  "leafX = Component ''x'' ''./x'' ''/w/a/x'' (MkProgram [] [] (Binder fmempty))"

definition leafY :: Component where
  "leafY = Component ''y'' ''./y'' ''/w/a/y'' (MkProgram [] [] (Binder fmempty))"

definition firstA :: Component where
  "firstA = Component ''first'' ''./a'' ''/w/a''
     (MkProgram [ComponentNode leafX] [] (Binder fmempty))"

definition secondA :: Component where
  "secondA = Component ''second'' ''./a'' ''/w/a''
     (MkProgram [ComponentNode leafY] [] (Binder fmempty))"

definition splitTree :: Program where
  "splitTree = MkProgram [ComponentNode firstA, ComponentNode secondA] [] (Binder fmempty)"

section \<open>Properties of the node binding state\<close>

lemma runCalls_Nil: "runCalls [] r = r"
  by (simp add: runCalls_def)

lemma runCalls_Cons: "runCalls (c # cs) r = runCalls cs (applyCall r c)"
  by (simp add: runCalls_def)

lemma runCalls_append: "runCalls (cs @ ds) r = runCalls ds (runCalls cs r)"
  by (simp add: runCalls_def)

lemma bound_runCalls: "bound (runCalls cs r) = (bound r \<or> MarkBound \<in> set cs)"
proof (induction cs arbitrary: r)
  case Nil
  show ?case by (simp add: runCalls_Nil)
next
  case (Cons c cs)
  show ?case
    by (cases c) (auto simp: runCalls_Cons Cons.IH markBinding_def markBound_def)
qed

lemma binding_runCalls: "binding (runCalls cs r) = (binding r \<or> MarkBinding \<in> set cs)"
proof (induction cs arbitrary: r)
  case Nil
  show ?case by (simp add: runCalls_Nil)
next
  case (Cons c cs)
  show ?case
    by (cases c) (auto simp: runCalls_Cons Cons.IH markBinding_def markBound_def)
qed

lemma deps_runCalls: "deps (runCalls cs r) = deps r"
proof (induction cs arbitrary: r)
  case Nil
  show ?case by (simp add: runCalls_Nil)
next
  case (Cons c cs)
  show ?case
    by (cases c) (simp_all add: runCalls_Cons Cons.IH markBinding_def markBound_def)
qed

text \<open>
  Claim C1. The binding state is monotonic. For every sequence of \<open>markBinding\<close> and
  \<open>markBound\<close> calls: a node that is bound stays bound; on a fresh node \<open>isBinding\<close>
  holds exactly when \<open>markBinding\<close> has been called and \<open>markBound\<close> has not; and after
  \<open>markBound\<close> no further sequence of calls makes \<open>isBinding\<close> true again.
\<close>

theorem binding_state_monotonic:
  "(isBound (r :: 'n node) \<longrightarrow> isBound (runCalls cs r))
   \<and> (isBinding (runCalls cs (newNode :: 'n node)) = (MarkBinding \<in> set cs \<and> MarkBound \<notin> set cs))
   \<and> \<not> isBinding (runCalls cs (markBound r))
   \<and> isBound (runCalls cs (markBound r))"
  by (simp add: isBound_def isBinding_def bound_runCalls binding_runCalls newNode_def
      markBound_def)

theorem binding_state_monotonic_witness:
  "isBound (markBound (markBinding (newNode :: unit node)))
   \<and> isBound (runCalls [MarkBinding, MarkBinding] (markBound (markBinding (newNode :: unit node))))
   \<and> isBinding (runCalls [MarkBinding] (newNode :: unit node))
   \<and> \<not> isBinding (runCalls [MarkBinding, MarkBound, MarkBinding] (newNode :: unit node))
   \<and> \<not> isBinding (runCalls [MarkBinding] (markBound (newNode :: unit node)))"
proof -
  have h: "isBound (markBound (markBinding (newNode :: unit node)))"
    by (simp add: isBound_def markBound_def)
  have a: "isBound (runCalls [MarkBinding, MarkBinding] (markBound (markBinding (newNode :: unit node))))"
    using binding_state_monotonic [of "markBound (markBinding (newNode :: unit node))"
        "[MarkBinding, MarkBinding]"] h by blast
  have b: "isBinding (runCalls [MarkBinding] (newNode :: unit node))"
    using binding_state_monotonic [of "newNode :: unit node" "[MarkBinding]"] by simp
  have c: "\<not> isBinding (runCalls [MarkBinding, MarkBound, MarkBinding] (newNode :: unit node))"
    using binding_state_monotonic [of "newNode :: unit node" "[MarkBinding, MarkBound, MarkBinding]"]
    by simp
  have d: "\<not> isBinding (runCalls [MarkBinding] (markBound (newNode :: unit node)))"
    using binding_state_monotonic [of "newNode :: unit node" "[MarkBinding]"] by blast
  from h a b c d show ?thesis by blast
qed

text \<open>
  Claim C10. Nothing makes the Binding state precede the Bound state. \<open>markBound\<close> on a
  node on which \<open>markBinding\<close> was never called makes \<open>isBound\<close> true, the node never
  having been in the Binding state; and no later sequence of calls tells this node from
  one that was marked binding first: \<open>isBound\<close>, \<open>isBinding\<close> and \<open>getDependencies\<close>
  answer the same on both.
\<close>

theorem markBound_without_markBinding:
  "\<not> isBinding (newNode :: 'n node)
   \<and> \<not> isBound (newNode :: 'n node)
   \<and> isBound (markBound (newNode :: 'n node))
   \<and> \<not> isBinding (markBound (newNode :: 'n node))
   \<and> isBound (runCalls cs (markBound (newNode :: 'n node)))
       = isBound (runCalls cs (markBound (markBinding (newNode :: 'n node))))
   \<and> isBinding (runCalls cs (markBound (newNode :: 'n node)))
       = isBinding (runCalls cs (markBound (markBinding (newNode :: 'n node))))
   \<and> getDependencies (runCalls cs (markBound (newNode :: 'n node)))
       = getDependencies (runCalls cs (markBound (markBinding (newNode :: 'n node))))"
  by (simp add: isBound_def isBinding_def getDependencies_def bound_runCalls binding_runCalls
      deps_runCalls newNode_def markBound_def markBinding_def)

section \<open>Properties of the package lists\<close>

lemma sortedKeys_props:
  "sorted (sortedKeys m)" "distinct (sortedKeys m)" "set (sortedKeys m) = fmdom' m"
  by (simp_all add: sortedKeys_def fmdom'_alt_def sorted_list_of_fset.rep_eq)

lemma sort_keys_any_order:
  assumes "distinct ks" and "set ks = fmdom' m"
  shows "sort ks = sortedKeys m"
proof -
  have "sort ks = sorted_list_of_set (set ks)"
    using assms(1) by (simp add: sorted_list_of_set_sort_remdups distinct_remdups_id)
  also have "\<dots> = sortedKeys m"
    using assms(2) by (simp add: sortedKeys_def fmdom'_alt_def sorted_list_of_fset.rep_eq)
  finally show ?thesis .
qed

lemma lookupKeys_Nil: "lookupKeys m [] = []"
  by (simp add: lookupKeys_def)

lemma lookupKeys_Cons:
  "fmlookup m k = Some v \<Longrightarrow> lookupKeys m (k # ks) = v # lookupKeys m ks"
  by (simp add: lookupKeys_def)

lemma lookupKeys_all2:
  "set ks \<subseteq> fmdom' m \<Longrightarrow> list_all2 (\<lambda>k v. fmlookup m k = Some v) ks (lookupKeys m ks)"
proof (induction ks)
  case Nil
  show ?case by (simp add: lookupKeys_Nil)
next
  case (Cons k ks)
  from Cons.prems obtain v where v: "fmlookup m k = Some v"
    by (auto simp: fmlookup_dom'_iff)
  with Cons show ?case by (simp add: lookupKeys_Cons)
qed

lemma length_lookupKeys: "length (lookupKeys m (sortedKeys m)) = length (sortedKeys m)"
  using lookupKeys_all2 [of "sortedKeys m" m]
  by (simp add: sortedKeys_props list_all2_lengthD)

lemma PackageReferences_keys:
  "list_all2 (\<lambda>k ref. fmlookup (referencedPackages (programBinder p)) k = Some ref)
     (sortedKeys (referencedPackages (programBinder p))) (PackageReferences p)"
  by (simp add: PackageReferences_def Let_def lookupKeys_all2 sortedKeys_props)

lemma PackageSnapshots_refs: "PackageSnapshots p = snapshotsLoop (PackageReferences p) []"
  by (simp add: PackageSnapshots_def PackageReferences_def Let_def)

text \<open>A list of references either resolves throughout, or has a first failure.\<close>

lemma first_failure:
  "(\<exists>xs. list_all2 (\<lambda>ref x. f ref = Inr x) refs xs)
   \<or> (\<exists>pre ref post xs err. refs = pre @ ref # post
        \<and> list_all2 (\<lambda>ref x. f ref = Inr x) pre xs \<and> f ref = Inl err)"
proof (induction refs)
  case Nil
  show ?case by simp
next
  case (Cons r refs)
  show ?case
  proof (cases "f r")
    case (Inl err)
    then have "r # refs = [] @ r # refs \<and> list_all2 (\<lambda>ref x. f ref = Inr x) [] [] \<and> f r = Inl err"
      by simp
    then show ?thesis by blast
  next
    case (Inr x)
    from Cons.IH show ?thesis
    proof
      assume "\<exists>xs. list_all2 (\<lambda>ref x. f ref = Inr x) refs xs"
      then obtain xs where "list_all2 (\<lambda>ref x. f ref = Inr x) refs xs" ..
      with Inr have "list_all2 (\<lambda>ref x. f ref = Inr x) (r # refs) (x # xs)" by simp
      then show ?thesis by blast
    next
      assume "\<exists>pre ref post xs err. refs = pre @ ref # post
        \<and> list_all2 (\<lambda>ref x. f ref = Inr x) pre xs \<and> f ref = Inl err"
      then obtain pre ref post xs err where
        "refs = pre @ ref # post" "list_all2 (\<lambda>ref x. f ref = Inr x) pre xs" "f ref = Inl err"
        by blast
      with Inr have "r # refs = (r # pre) @ ref # post
        \<and> list_all2 (\<lambda>ref x. f ref = Inr x) (r # pre) (x # xs) \<and> f ref = Inl err"
        by simp
      then show ?thesis by blast
    qed
  qed
qed

lemma snapshotsLoop_ok:
  "list_all2 (\<lambda>ref pkg. resolve ref = Inr pkg) refs pkgs \<Longrightarrow>
   snapshotsLoop refs vals = (Some (vals @ pkgs), None)"
  by (induction refs pkgs arbitrary: vals rule: list_all2_induct) simp_all

lemma snapshotsLoop_err:
  "list_all2 (\<lambda>ref pkg. resolve ref = Inr pkg) pre pkgs \<Longrightarrow> resolve ref = Inl err \<Longrightarrow>
   snapshotsLoop (pre @ ref # post) vals =
     (None, Some (Errorf (''defining package '' @ quoted (RefName ref)) err))"
  by (induction pre pkgs arbitrary: vals rule: list_all2_induct) simp_all

lemma all2_Inr_no_failure:
  "list_all2 (\<lambda>ref x. f ref = Inr x) refs xs \<Longrightarrow> ref \<in> set refs \<Longrightarrow> \<exists>x. f ref = Inr x"
  by (induction refs xs rule: list_all2_induct) auto


lemma PackageSnapshots_cases:
  "(\<exists>pkgs. list_all2 (\<lambda>ref pkg. resolve ref = Inr pkg) (PackageReferences p) pkgs
       \<and> PackageSnapshots p = (Some pkgs, None))
   \<or> (\<exists>pre ref post pkgs err. PackageReferences p = pre @ ref # post
       \<and> list_all2 (\<lambda>ref pkg. resolve ref = Inr pkg) pre pkgs \<and> resolve ref = Inl err
       \<and> PackageSnapshots p =
           (None, Some (Errorf (''defining package '' @ quoted (RefName ref)) err)))"
  using first_failure [of resolve "PackageReferences p"]
proof
  assume "\<exists>xs. list_all2 (\<lambda>ref x. resolve ref = Inr x) (PackageReferences p) xs"
  then obtain pkgs where ok: "list_all2 (\<lambda>ref x. resolve ref = Inr x) (PackageReferences p) pkgs" ..
  then have "PackageSnapshots p = (Some pkgs, None)"
    using snapshotsLoop_ok [of "PackageReferences p" pkgs "[]"] by (simp add: PackageSnapshots_refs)
  with ok show ?thesis by blast
next
  assume "\<exists>pre ref post xs err. PackageReferences p = pre @ ref # post
      \<and> list_all2 (\<lambda>ref x. resolve ref = Inr x) pre xs \<and> resolve ref = Inl err"
  then obtain pre ref post pkgs err where
    f: "PackageReferences p = pre @ ref # post"
      "list_all2 (\<lambda>ref x. resolve ref = Inr x) pre pkgs" "resolve ref = Inl err"
    by blast
  then have "PackageSnapshots p =
      (None, Some (Errorf (''defining package '' @ quoted (RefName ref)) err))"
    using snapshotsLoop_err [of pre pkgs ref err post "[]"] by (simp add: PackageSnapshots_refs)
  with f show ?thesis by blast
qed



lemma if_boolI: "(c \<Longrightarrow> a) \<Longrightarrow> (\<not> c \<Longrightarrow> b) \<Longrightarrow> (if c then a else b)"
  by simp

lemma if_boolD1: "(if c then a else b) \<Longrightarrow> c \<Longrightarrow> a"
  by simp

lemma if_boolD2: "(if c then a else b) \<Longrightarrow> \<not> c \<Longrightarrow> b"
  by simp

lemma resolved_iff:
  "(\<exists>xs. list_all2 (\<lambda>ref x. f ref = Inr x) refs xs) = (\<forall>ref\<in>set refs. \<exists>x. f ref = Inr x)"
proof (induction refs)
  case Nil
  show ?case by simp
next
  case (Cons r refs)
  show ?case
  proof
    assume "\<exists>xs. list_all2 (\<lambda>ref x. f ref = Inr x) (r # refs) xs"
    then obtain xs where xs: "list_all2 (\<lambda>ref x. f ref = Inr x) (r # refs) xs" ..
    show "\<forall>ref\<in>set (r # refs). \<exists>x. f ref = Inr x"
      using all2_Inr_no_failure [OF xs] by blast
  next
    assume a: "\<forall>ref\<in>set (r # refs). \<exists>x. f ref = Inr x"
    then obtain x where x: "f r = Inr x" by auto
    from a Cons.IH obtain xs where "list_all2 (\<lambda>ref x. f ref = Inr x) refs xs" by auto
    with x have "list_all2 (\<lambda>ref x. f ref = Inr x) (r # refs) (x # xs)" by simp
    then show "\<exists>xs. list_all2 (\<lambda>ref x. f ref = Inr x) (r # refs) xs" ..
  qed
qed

text \<open>
  Claim C4. \<open>PackageSnapshots\<close> is fail-fast. When every reference resolves it returns a
  list and no error. Otherwise it returns the nil list together with an error that wraps
  the error of the first reference, in key order, that fails to resolve; the text of the
  returned error is \<open>defining package\<close>, the name of that reference between single
  quotes, a colon and the text of the wrapped error. There is no partial list.
\<close>

theorem PackageSnapshots_fail_fast:
  "(if \<forall>ref\<in>set (PackageReferences p). \<exists>pkg. resolve ref = Inr pkg
    then \<exists>pkgs. PackageSnapshots p = (Some pkgs, None)
    else \<exists>pre ref post err e. PackageReferences p = pre @ ref # post
           \<and> (\<forall>r\<in>set pre. \<exists>pkg. resolve r = Inr pkg) \<and> resolve ref = Inl err
           \<and> PackageSnapshots p = (None, Some e)
           \<and> e = Errorf (''defining package '' @ [CHR 0x27] @ RefName ref @ [CHR 0x27]) err
           \<and> Error e =
               ''defining package '' @ [CHR 0x27] @ RefName ref @ [CHR 0x27] @ '': '' @ Error err)"
proof (rule if_boolI)
  assume "\<forall>ref\<in>set (PackageReferences p). \<exists>pkg. resolve ref = Inr pkg"
  then have "\<exists>pkgs. list_all2 (\<lambda>ref pkg. resolve ref = Inr pkg) (PackageReferences p) pkgs"
    by (simp add: resolved_iff)
  then obtain pkgs where "list_all2 (\<lambda>ref pkg. resolve ref = Inr pkg) (PackageReferences p) pkgs" ..
  then have "PackageSnapshots p = (Some pkgs, None)"
    using snapshotsLoop_ok [of "PackageReferences p" pkgs "[]"] by (simp add: PackageSnapshots_refs)
  then show "\<exists>pkgs. PackageSnapshots p = (Some pkgs, None)" ..
next
  assume "\<not> (\<forall>ref\<in>set (PackageReferences p). \<exists>pkg. resolve ref = Inr pkg)"
  then have "\<not> (\<exists>pkgs. list_all2 (\<lambda>ref pkg. resolve ref = Inr pkg) (PackageReferences p) pkgs)"
    by (simp add: resolved_iff)
  with PackageSnapshots_cases [of p] obtain pre ref post pkgs err where
    f: "PackageReferences p = pre @ ref # post"
      "list_all2 (\<lambda>ref pkg. resolve ref = Inr pkg) pre pkgs" "resolve ref = Inl err"
      "PackageSnapshots p = (None, Some (Errorf (''defining package '' @ quoted (RefName ref)) err))"
    by blast
  let ?e = "Errorf (''defining package '' @ [CHR 0x27] @ RefName ref @ [CHR 0x27]) err"
  from f(4) have r: "PackageSnapshots p = (None, Some ?e)"
    by (simp add: quoted_def)
  have t: "Error ?e =
      ''defining package '' @ [CHR 0x27] @ RefName ref @ [CHR 0x27] @ '': '' @ Error err"
    by simp
  from f(2) have "\<forall>r\<in>set pre. \<exists>pkg. resolve r = Inr pkg"
    using all2_Inr_no_failure [of resolve pre pkgs] by blast
  with f(1,3) r t show "\<exists>pre ref post err e. PackageReferences p = pre @ ref # post
           \<and> (\<forall>r\<in>set pre. \<exists>pkg. resolve r = Inr pkg) \<and> resolve ref = Inl err
           \<and> PackageSnapshots p = (None, Some e)
           \<and> e = Errorf (''defining package '' @ [CHR 0x27] @ RefName ref @ [CHR 0x27]) err
           \<and> Error e =
               ''defining package '' @ [CHR 0x27] @ RefName ref @ [CHR 0x27] @ '': '' @ Error err"
    by blast
qed

lemma brokenSnapshot_refs: "PackageReferences brokenSnapshot = [awsRef, azureRef, randomRef]"
  by code_simp

lemma twoPackages_refs: "PackageReferences twoPackages = [awsRef, randomRef]"
  by code_simp

lemma first_failure_unique:
  assumes "pre @ x # post = pre' @ y # post'"
    and "\<forall>r\<in>set pre. \<not> bad r" and "bad x"
    and "\<forall>r\<in>set pre'. \<not> bad r" and "bad y"
  shows "x = y"
  using assms
proof (induction pre arbitrary: pre')
  case Nil
  show ?case
  proof (cases pre')
    case Nil
    with Nil.prems(1) show ?thesis by simp
  next
    case (Cons b bs)
    with Nil.prems show ?thesis by auto
  qed
next
  case (Cons a pre)
  show ?case
  proof (cases pre')
    case Nil
    with Cons.prems show ?thesis by auto
  next
    case inner: (Cons b bs)
    with Cons.prems have "pre @ x # post = bs @ y # post'" "\<forall>r\<in>set bs. \<not> bad r"
      by simp_all
    with Cons.IH Cons.prems show ?thesis by simp
  qed
qed

theorem PackageSnapshots_fail_fast_witness:
  "PackageReferences brokenSnapshot = [awsRef, azureRef, randomRef]
   \<and> resolve awsRef = Inr awsPruned
   \<and> resolve azureRef = Inl (ErrorString ''schema not found'')
   \<and> RefName azureRef = ''azure''
   \<and> fst (PackageSnapshots brokenSnapshot) = None
   \<and> map_option Error (snd (PackageSnapshots brokenSnapshot)) =
       Some (''defining package '' @ [CHR 0x27] @ ''azure'' @ [CHR 0x27] @ '': schema not found'')
   \<and> snd (PackageSnapshots brokenSnapshot) =
       Some (Errorf (''defining package '' @ [CHR 0x27] @ ''azure'' @ [CHR 0x27])
         (ErrorString ''schema not found''))
   \<and> PackageSnapshots twoPackages = (Some [awsPruned, randomFull], None)"
proof -
  have good: "resolve awsRef = Inr awsPruned"
    by (simp add: awsRef_def)
  have bad: "resolve azureRef = Inl (ErrorString ''schema not found'')"
    by (simp add: azureRef_def)
  have name: "RefName azureRef = ''azure''"
    by (simp add: azureRef_def)
  have mem: "azureRef \<in> set (PackageReferences brokenSnapshot)"
    by (simp add: brokenSnapshot_refs)
  have "\<not> (\<forall>ref\<in>set (PackageReferences brokenSnapshot). \<exists>pkg. resolve ref = Inr pkg)"
  proof
    assume "\<forall>ref\<in>set (PackageReferences brokenSnapshot). \<exists>pkg. resolve ref = Inr pkg"
    with mem obtain pkg where "resolve azureRef = Inr pkg" by blast
    with bad show False by simp
  qed
  from if_boolD2 [OF PackageSnapshots_fail_fast [of brokenSnapshot] this]
  obtain pre ref post err e where f:
    "PackageReferences brokenSnapshot = pre @ ref # post"
    "\<forall>r\<in>set pre. \<exists>pkg. resolve r = Inr pkg" "resolve ref = Inl err"
    "PackageSnapshots brokenSnapshot = (None, Some e)"
    "e = Errorf (''defining package '' @ [CHR 0x27] @ RefName ref @ [CHR 0x27]) err"
    "Error e = ''defining package '' @ [CHR 0x27] @ RefName ref @ [CHR 0x27] @ '': '' @ Error err"
    by blast
  have split: "[awsRef] @ azureRef # [randomRef] = pre @ ref # post"
    using f(1) by (simp add: brokenSnapshot_refs)
  have "azureRef = ref"
  proof (rule first_failure_unique [OF split, of "\<lambda>r. \<exists>err. resolve r = Inl err"])
    show "\<forall>r\<in>set [awsRef]. \<not> (\<exists>err. resolve r = Inl err)" by (simp add: good)
    show "\<exists>err. resolve azureRef = Inl err" by (simp add: bad)
    show "\<forall>r\<in>set pre. \<not> (\<exists>err. resolve r = Inl err)" using f(2) by auto
    show "\<exists>err. resolve ref = Inl err" using f(3) by simp
  qed
  with f(3) bad have err: "err = ErrorString ''schema not found''" by simp
  from f(4) have none: "fst (PackageSnapshots brokenSnapshot) = None" by simp
  from f(4,5) \<open>azureRef = ref\<close> err name
  have wrapped: "snd (PackageSnapshots brokenSnapshot) =
      Some (Errorf (''defining package '' @ [CHR 0x27] @ ''azure'' @ [CHR 0x27])
        (ErrorString ''schema not found''))"
    by auto
  from f(4,6) \<open>azureRef = ref\<close> err name
  have rendered: "map_option Error (snd (PackageSnapshots brokenSnapshot)) =
      Some (''defining package '' @ [CHR 0x27] @ ''azure'' @ [CHR 0x27] @ '': schema not found'')"
    by auto
  have "\<forall>ref\<in>set (PackageReferences twoPackages). \<exists>pkg. resolve ref = Inr pkg"
    by (simp add: twoPackages_refs awsRef_def randomRef_def)
  from if_boolD1 [OF PackageSnapshots_fail_fast [of twoPackages] this]
  obtain pkgs where "PackageSnapshots twoPackages = (Some pkgs, None)"
    by blast
  moreover have "fst (PackageSnapshots twoPackages) = Some [awsPruned, randomFull]"
    by code_simp
  ultimately have ok: "PackageSnapshots twoPackages = (Some [awsPruned, randomFull], None)"
    by simp
  from brokenSnapshot_refs good bad name none rendered wrapped ok show ?thesis by blast
qed

text \<open>
  Claim C5. When \<open>PackageSnapshots\<close> returns a list, its elements stand in the order of
  \<open>PackageReferences\<close>, and the element for a reference is the result of \<open>Snapshot()\<close>
  when the reference is a partial package and the result of \<open>Definition()\<close> otherwise.
\<close>

theorem PackageSnapshots_elements:
  "PackageSnapshots p = (Some pkgs, None) \<Longrightarrow>
   list_all2
     (\<lambda>ref pkg. case ref of
        PartialPackage n d s \<Rightarrow> Snapshot ref = Inr pkg
      | FullPackage n d \<Rightarrow> Definition ref = Inr pkg)
     (PackageReferences p) pkgs"
proof -
  assume ok: "PackageSnapshots p = (Some pkgs, None)"
  have eq: "(resolve ref = Inr pkg) =
      (case ref of PartialPackage n d s \<Rightarrow> Snapshot ref = Inr pkg
       | FullPackage n d \<Rightarrow> Definition ref = Inr pkg)" for ref pkg
    by (cases ref) simp_all
  from PackageSnapshots_cases [of p] ok
  have "list_all2 (\<lambda>ref pkg. resolve ref = Inr pkg) (PackageReferences p) pkgs"
    by auto
  then show ?thesis by (simp only: eq)
qed

theorem PackageSnapshots_elements_witness:
  "PackageSnapshots twoPackages = (Some [awsPruned, randomFull], None)
   \<and> PackageReferences twoPackages = [awsRef, randomRef]
   \<and> Snapshot awsRef = Inr awsPruned \<and> Definition awsRef = Inr awsFull
   \<and> Definition randomRef = Inr randomFull \<and> awsPruned \<noteq> awsFull"
proof -
  have ok: "PackageSnapshots twoPackages = (Some [awsPruned, randomFull], None)"
    by code_simp
  from PackageSnapshots_elements [OF ok]
  have "Snapshot awsRef = Inr awsPruned \<and> Definition randomRef = Inr randomFull"
    by (simp add: twoPackages_refs awsRef_def randomRef_def)
  moreover have "Definition awsRef = Inr awsFull" "awsPruned \<noteq> awsFull"
    by (simp_all add: awsRef_def awsPruned_def awsFull_def)
  ultimately show ?thesis using ok twoPackages_refs by simp
qed

lemma fmlookup_foldl_fmupd:
  "fmlookup (foldl (\<lambda>m (k, v). fmupd k v m) m ins) k =
     (case map_of (rev ins) k of Some v \<Rightarrow> Some v | None \<Rightarrow> fmlookup m k)"
proof (induction ins arbitrary: m)
  case Nil
  show ?case by simp
next
  case (Cons x ins)
  obtain k' v' where x: "x = (k', v')" by (cases x)
  show ?case
    by (simp add: x Cons.IH map_add_def split: option.splits)
qed

lemma map_of_rev_distinct:
  assumes "distinct (map fst xs)"
  shows "map_of (rev xs) = map_of xs"
proof -
  from assms have "distinct (map fst (rev xs))" by (simp add: rev_map [symmetric])
  from map_of_inject_set [OF this assms] show ?thesis by simp
qed

lemma fmlookup_insertAll:
  "distinct (map fst ins) \<Longrightarrow> fmlookup (insertAll ins) k = map_of ins k"
  by (simp add: insertAll_def fmlookup_foldl_fmupd map_of_rev_distinct split: option.splits)

lemma insertAll_reorder:
  assumes "distinct (map fst ins)" and "distinct (map fst ins')" and "set ins = set ins'"
  shows "insertAll ins = insertAll ins'"
proof (rule fmap_ext)
  fix k
  from assms have "map_of ins = map_of ins'" by (simp add: map_of_inject_set)
  with assms(1,2) show "fmlookup (insertAll ins) k = fmlookup (insertAll ins') k"
    by (simp add: fmlookup_insertAll)
qed

text \<open>
  Claim C6. Both lists are in ascending order of package key. There is a strictly
  ascending list of the keys of the map that \<open>PackageReferences\<close> follows key by key, and
  that \<open>PackageSnapshots\<close> follows when it returns a list. The order in which \<open>range\<close>
  yields the keys does not matter: sorting any enumeration of the keys gives that list.
  Neither does the order of insertion: two sequences of insertions of the same entries
  give the same lists.
\<close>

theorem package_lists_ascending:
  "(\<exists>ks. sorted ks \<and> distinct ks
      \<and> set ks = fmdom' (referencedPackages (programBinder p))
      \<and> list_all2 (\<lambda>k ref. fmlookup (referencedPackages (programBinder p)) k = Some ref)
          ks (PackageReferences p)
      \<and> (\<forall>pkgs. PackageSnapshots p = (Some pkgs, None) \<longrightarrow>
           list_all2 (\<lambda>k pkg. \<exists>ref. fmlookup (referencedPackages (programBinder p)) k = Some ref
              \<and> resolve ref = Inr pkg) ks pkgs)
      \<and> (\<forall>enum. distinct enum \<and> set enum = fmdom' (referencedPackages (programBinder p))
           \<longrightarrow> sort enum = ks))
   \<and> (distinct (map fst ins) \<and> distinct (map fst ins') \<and> set ins = set ins' \<longrightarrow>
        PackageReferences (MkProgram ns fs (Binder (insertAll ins)))
          = PackageReferences (MkProgram ns fs (Binder (insertAll ins')))
        \<and> PackageSnapshots (MkProgram ns fs (Binder (insertAll ins)))
          = PackageSnapshots (MkProgram ns fs (Binder (insertAll ins'))))"
proof (intro conjI impI)
  let ?m = "referencedPackages (programBinder p)"
  have snaps: "list_all2 (\<lambda>k pkg. \<exists>ref. fmlookup ?m k = Some ref \<and> resolve ref = Inr pkg)
      (sortedKeys ?m) pkgs" if ok: "PackageSnapshots p = (Some pkgs, None)" for pkgs
  proof -
    from PackageSnapshots_cases [of p] ok
    have r: "list_all2 (\<lambda>ref pkg. resolve ref = Inr pkg) (PackageReferences p) pkgs"
      by auto
    show ?thesis
      using list_all2_trans [where ?P1.0 = "\<lambda>k ref. fmlookup ?m k = Some ref"
          and ?P2.0 = "\<lambda>ref pkg. resolve ref = Inr pkg"
          and ?P3.0 = "\<lambda>k pkg. \<exists>ref. fmlookup ?m k = Some ref \<and> resolve ref = Inr pkg",
          OF _ PackageReferences_keys [of p] r]
      by blast
  qed
  have "sorted (sortedKeys ?m) \<and> distinct (sortedKeys ?m) \<and> set (sortedKeys ?m) = fmdom' ?m
      \<and> list_all2 (\<lambda>k ref. fmlookup ?m k = Some ref) (sortedKeys ?m) (PackageReferences p)
      \<and> (\<forall>pkgs. PackageSnapshots p = (Some pkgs, None) \<longrightarrow>
           list_all2 (\<lambda>k pkg. \<exists>ref. fmlookup ?m k = Some ref \<and> resolve ref = Inr pkg)
             (sortedKeys ?m) pkgs)
      \<and> (\<forall>enum. distinct enum \<and> set enum = fmdom' ?m \<longrightarrow> sort enum = sortedKeys ?m)"
    using snaps by (simp add: sortedKeys_props PackageReferences_keys sort_keys_any_order)
  then show "\<exists>ks. sorted ks \<and> distinct ks \<and> set ks = fmdom' ?m
      \<and> list_all2 (\<lambda>k ref. fmlookup ?m k = Some ref) ks (PackageReferences p)
      \<and> (\<forall>pkgs. PackageSnapshots p = (Some pkgs, None) \<longrightarrow>
           list_all2 (\<lambda>k pkg. \<exists>ref. fmlookup ?m k = Some ref \<and> resolve ref = Inr pkg) ks pkgs)
      \<and> (\<forall>enum. distinct enum \<and> set enum = fmdom' ?m \<longrightarrow> sort enum = ks)"
    by (rule exI)
next
  assume a: "distinct (map fst ins) \<and> distinct (map fst ins') \<and> set ins = set ins'"
  then have "insertAll ins = insertAll ins'" by (simp add: insertAll_reorder)
  then show "PackageReferences (MkProgram ns fs (Binder (insertAll ins)))
      = PackageReferences (MkProgram ns fs (Binder (insertAll ins')))" by simp
next
  assume a: "distinct (map fst ins) \<and> distinct (map fst ins') \<and> set ins = set ins'"
  then have "insertAll ins = insertAll ins'" by (simp add: insertAll_reorder)
  then show "PackageSnapshots (MkProgram ns fs (Binder (insertAll ins)))
      = PackageSnapshots (MkProgram ns fs (Binder (insertAll ins')))" by simp
qed

theorem package_lists_ascending_witness:
  "PackageReferences twoPackages = [awsRef, randomRef]
   \<and> PackageReferences
        (MkProgram [] [] (Binder (insertAll [(''aws'', awsRef), (''random'', randomRef)])))
      = PackageReferences twoPackages
   \<and> PackageSnapshots
        (MkProgram [] [] (Binder (insertAll [(''aws'', awsRef), (''random'', randomRef)])))
      = PackageSnapshots twoPackages
   \<and> sort [''random'', ''aws''] = [''aws'', ''random'']
   \<and> list_all2 (\<lambda>k ref. fmlookup (referencedPackages (programBinder twoPackages)) k = Some ref)
        [''aws'', ''random''] (PackageReferences twoPackages)"
proof -
  let ?ins = "[(''random'', randomRef), (''aws'', awsRef)]"
  let ?ins' = "[(''aws'', awsRef), (''random'', randomRef)]"
  note t = package_lists_ascending [of twoPackages ?ins ?ins' "[]" "[]"]
  have h: "distinct (map fst ?ins) \<and> distinct (map fst ?ins') \<and> set ?ins = set ?ins'"
    by auto
  from t h have reorder:
    "PackageReferences (MkProgram [] [] (Binder (insertAll ?ins')))
       = PackageReferences twoPackages
     \<and> PackageSnapshots (MkProgram [] [] (Binder (insertAll ?ins')))
       = PackageSnapshots twoPackages"
    unfolding twoPackages_def by simp
  have dom: "fmdom' (referencedPackages (programBinder twoPackages)) = {''random'', ''aws''}"
    by code_simp
  from t obtain ks where ks:
    "list_all2 (\<lambda>k ref. fmlookup (referencedPackages (programBinder twoPackages)) k = Some ref)
       ks (PackageReferences twoPackages)"
    "\<forall>enum. distinct enum \<and> set enum = fmdom' (referencedPackages (programBinder twoPackages))
       \<longrightarrow> sort enum = ks"
    by blast
  have "distinct [''random'', ''aws''] \<and> set [''random'', ''aws'']
      = fmdom' (referencedPackages (programBinder twoPackages))"
    by (simp add: dom)
  with ks(2) have s: "sort [''random'', ''aws''] = ks" by blast
  have v: "sort [''random'', ''aws''] = [''aws'', ''random'']" by simp
  from s v ks(1) have "list_all2
      (\<lambda>k ref. fmlookup (referencedPackages (programBinder twoPackages)) k = Some ref)
      [''aws'', ''random''] (PackageReferences twoPackages)"
    by simp
  with reorder v twoPackages_refs show ?thesis by blast
qed

lemma packagesLoop_ok:
  "list_all2 (\<lambda>ref def. Definition ref = Inr def) refs ds \<Longrightarrow> i + length refs \<le> length defs \<Longrightarrow>
   packagesLoop i refs defs =
     Return (take i defs @ map Some ds @ drop (i + length refs) defs)"
proof (induction refs ds arbitrary: i defs rule: list_all2_induct)
  case Nil
  show ?case by simp
next
  case (Cons ref refs d ds)
  from Cons.prems have i: "i < length defs" by simp
  have len: "Suc i + length refs \<le> length (defs[i := Some d])"
    using Cons.prems by simp
  have "take (Suc i) (defs[i := Some d]) = take i defs @ [Some d]"
    using i by (simp add: take_Suc_conv_app_nth)
  moreover have "drop (Suc i + length refs) (defs[i := Some d]) = drop (Suc i + length refs) defs"
    by simp
  ultimately show ?case
    using Cons.hyps(1) i Cons.IH [OF len] by simp
qed

lemma packagesLoop_err:
  "list_all2 (\<lambda>ref def. Definition ref = Inr def) pre ds \<Longrightarrow> Definition ref = Inl err \<Longrightarrow>
   i + length pre \<le> length defs \<Longrightarrow>
   packagesLoop i (pre @ ref # post) defs = Panic (Errorf ''loading package definition'' err)"
proof (induction pre ds arbitrary: i defs rule: list_all2_induct)
  case Nil
  then show ?case by simp
next
  case (Cons r pre d ds)
  from Cons.prems have i: "i < length defs" by simp
  have len: "Suc i + length pre \<le> length (defs[i := Some d])"
    using Cons.prems by simp
  show ?case
    using Cons.hyps(1) i Cons.IH [OF Cons.prems(1) len] by simp
qed

text \<open>
  Claim C9. \<open>Packages\<close> has no error result. When \<open>Definition()\<close> succeeds for every
  reference it returns the definitions, in the order of \<open>PackageReferences\<close>, with no
  nil pointer among them. Otherwise it panics with the error of the first reference, in
  that order, whose definition fails, wrapped as \<open>loading package definition\<close>.
\<close>

theorem Packages_returns_or_panics:
  "(if \<forall>ref\<in>set (PackageReferences p). \<exists>def. Definition ref = Inr def
    then \<exists>defs. list_all2 (\<lambda>ref def. Definition ref = Inr def) (PackageReferences p) defs
           \<and> Packages p = Return (map Some defs)
    else \<exists>pre ref post err. PackageReferences p = pre @ ref # post
           \<and> (\<forall>r\<in>set pre. \<exists>def. Definition r = Inr def) \<and> Definition ref = Inl err
           \<and> Packages p = Panic (Errorf ''loading package definition'' err)
           \<and> Error (Errorf ''loading package definition'' err)
               = ''loading package definition: '' @ Error err)"
proof (rule if_boolI)
  assume "\<forall>ref\<in>set (PackageReferences p). \<exists>def. Definition ref = Inr def"
  then have "\<exists>defs. list_all2 (\<lambda>ref def. Definition ref = Inr def) (PackageReferences p) defs"
    by (simp add: resolved_iff)
  then obtain defs where
    d: "list_all2 (\<lambda>ref def. Definition ref = Inr def) (PackageReferences p) defs" ..
  then have "length defs = length (PackageReferences p)"
    by (simp add: list_all2_lengthD)
  with packagesLoop_ok [OF d, of 0 "replicate (length (PackageReferences p)) None"]
  have "Packages p = Return (map Some defs)"
    by (simp add: Packages_def Let_def)
  with d show "\<exists>defs. list_all2 (\<lambda>ref def. Definition ref = Inr def) (PackageReferences p) defs
           \<and> Packages p = Return (map Some defs)"
    by blast
next
  assume "\<not> (\<forall>ref\<in>set (PackageReferences p). \<exists>def. Definition ref = Inr def)"
  then have "\<not> (\<exists>defs. list_all2 (\<lambda>ref def. Definition ref = Inr def) (PackageReferences p) defs)"
    by (simp add: resolved_iff)
  with first_failure [of Definition "PackageReferences p"] obtain pre ref post ds err where
    f: "PackageReferences p = pre @ ref # post"
      "list_all2 (\<lambda>ref def. Definition ref = Inr def) pre ds" "Definition ref = Inl err"
    by blast
  have "packagesLoop 0 (pre @ ref # post) (replicate (length (pre @ ref # post)) None)
      = Panic (Errorf ''loading package definition'' err)"
    by (rule packagesLoop_err [OF f(2,3)]) simp
  with f(1) have p: "Packages p = Panic (Errorf ''loading package definition'' err)"
    by (simp add: Packages_def Let_def)
  from f(2) have "\<forall>r\<in>set pre. \<exists>def. Definition r = Inr def"
    using all2_Inr_no_failure [of Definition pre ds] by blast
  with f(1,3) p show "\<exists>pre ref post err. PackageReferences p = pre @ ref # post
           \<and> (\<forall>r\<in>set pre. \<exists>def. Definition r = Inr def) \<and> Definition ref = Inl err
           \<and> Packages p = Panic (Errorf ''loading package definition'' err)
           \<and> Error (Errorf ''loading package definition'' err)
               = ''loading package definition: '' @ Error err"
    by auto
qed

lemma brokenDefinition_refs: "PackageReferences brokenDefinition = [awsRef, gcpRef, randomRef]"
  by code_simp

theorem Packages_returns_or_panics_witness:
  "Packages twoPackages = Return [Some awsFull, Some randomFull]
   \<and> Definition gcpRef = Inl (ErrorString ''plugin not installed'')
   \<and> gcpRef \<in> set (PackageReferences brokenDefinition)
   \<and> Packages brokenDefinition =
       Panic (Errorf ''loading package definition'' (ErrorString ''plugin not installed''))"
proof -
  have bad: "Definition gcpRef = Inl (ErrorString ''plugin not installed'')"
    by (simp add: gcpRef_def)
  have mem: "gcpRef \<in> set (PackageReferences brokenDefinition)"
    by (simp add: brokenDefinition_refs)
  have "\<not> (\<forall>ref\<in>set (PackageReferences brokenDefinition). \<exists>def. Definition ref = Inr def)"
  proof
    assume "\<forall>ref\<in>set (PackageReferences brokenDefinition). \<exists>def. Definition ref = Inr def"
    with mem obtain def where "Definition gcpRef = Inr def" by blast
    with bad show False by simp
  qed
  from if_boolD2 [OF Packages_returns_or_panics [of brokenDefinition] this]
  obtain e where "Packages brokenDefinition = Panic (Errorf ''loading package definition'' e)"
    by blast
  moreover have "Packages brokenDefinition =
      Panic (Errorf ''loading package definition'' (ErrorString ''plugin not installed''))"
    by code_simp
  moreover have "Packages twoPackages = Return [Some awsFull, Some randomFull]"
    by code_simp
  ultimately show ?thesis using bad mem by blast
qed

section \<open>Properties of the program functions\<close>

lemma configVarsLoop_filter:
  "map ConfigVariableNode (configVarsLoop ns acc) =
     map ConfigVariableNode acc @ filter isConfigVariable ns"
  by (induction ns acc rule: configVarsLoop.induct) simp_all

lemma outputsLoop_filter:
  "map OutputVariableNode (outputsLoop ns acc) =
     map OutputVariableNode acc @ filter isOutputVariable ns"
  by (induction ns acc rule: outputsLoop.induct) simp_all

text \<open>
  Claim C8. \<open>ConfigVariables\<close> and \<open>OutputVariables\<close> are order-preserving filters: as
  nodes, their results are the config variable nodes and the output variable nodes of
  \<open>Nodes\<close>, in the order in which \<open>Nodes\<close> has them.
\<close>

theorem variables_are_filters:
  "map ConfigVariableNode (ConfigVariables p) = filter isConfigVariable (Nodes p)
   \<and> map OutputVariableNode (OutputVariables p) = filter isOutputVariable (Nodes p)"
  by (simp add: ConfigVariables_def OutputVariables_def configVarsLoop_filter
      outputsLoop_filter)

theorem variables_are_filters_witness:
  "ConfigVariables mainProgram = [ConfigVariable ''region'', ConfigVariable ''zone'']
   \<and> OutputVariables mainProgram = [OutputVariable ''url'', OutputVariable ''arn'']"
proof -
  have "filter isConfigVariable (Nodes mainProgram)
      = map ConfigVariableNode [ConfigVariable ''region'', ConfigVariable ''zone'']"
    by (simp add: mainProgram_def)
  moreover have "filter isOutputVariable (Nodes mainProgram)
      = map OutputVariableNode [OutputVariable ''url'', OutputVariable ''arn'']"
    by (simp add: mainProgram_def)
  ultimately have "map ConfigVariableNode (ConfigVariables mainProgram)
      = map ConfigVariableNode [ConfigVariable ''region'', ConfigVariable ''zone'']
    \<and> map OutputVariableNode (OutputVariables mainProgram)
      = map OutputVariableNode [OutputVariable ''url'', OutputVariable ''arn'']"
    using variables_are_filters [of mainProgram] by simp
  moreover have "inj ConfigVariableNode" and "inj OutputVariableNode"
    by (simp_all add: inj_def)
  ultimately show ?thesis
    by (simp only: inj_map_eq_map)
qed

lemma fileEntriesLoop_map:
  "fileEntriesLoop fs acc =
     acc @ map (\<lambda>file. ProgramFileOrDirectory
        (Some \<lparr>FileName = SyntaxFile.Name file, Content = Bytes file\<rparr>) None) fs"
  by (induction fs arbitrary: acc) simp_all

declare SourceFiles.simps [simp del]

lemma componentEntriesLoop_map:
  "componentEntriesLoop Join ns d acc =
     acc @ map (\<lambda>node. ProgramFileOrDirectory None
        (Some (SourceFiles Join (Program node) (Join d (source node))))) (componentNodes ns)"
proof (induction ns arbitrary: acc)
  case Nil
  show ?case by simp
next
  case (Cons n ns)
  show ?case by (cases n) (simp_all add: Cons.IH Let_def)
qed

text \<open>
  Claim C7. \<open>SourceFiles\<close> returns a directory whose path is the base directory and
  whose entries are one file entry, with name and content, for each file of the program
  in file order, followed by one directory entry for each component node in declaration
  order: the \<open>SourceFiles\<close> of the component's program at the base directory joined
  with the component's source directory.
\<close>

theorem SourceFiles_tree:
  "SourceFiles Join p d =
     ProgramDirectory d
       (map (\<lambda>file. ProgramFileOrDirectory
           (Some \<lparr>FileName = SyntaxFile.Name file, Content = Bytes file\<rparr>) None) (files p)
        @ map (\<lambda>node. ProgramFileOrDirectory None
           (Some (SourceFiles Join (Program node) (Join d (source node)))))
           (componentNodes (Nodes p)))
   \<and> Path (SourceFiles Join p d) = d"
  by (subst (1 3) SourceFiles.simps) (simp add: fileEntriesLoop_map componentEntriesLoop_map)

lemma Join_out_mymodule: "filepathJoin ''out'' ''./mymodule'' = ''out/mymodule''"
  by code_simp

theorem SourceFiles_tree_witness:
  "SourceFiles filepathJoin mainProgram ''out'' =
     ProgramDirectory ''out''
       [ProgramFileOrDirectory (Some \<lparr>FileName = ''main.pp'', Content = ''config''\<rparr>) None,
        ProgramFileOrDirectory None
          (Some (ProgramDirectory ''out/mymodule''
             [ProgramFileOrDirectory
                (Some \<lparr>FileName = ''mymodule.pp'', Content = ''locals''\<rparr>) None]))]"
proof -
  have inner: "SourceFiles filepathJoin (Program mymodule) ''out/mymodule'' =
      ProgramDirectory ''out/mymodule''
        [ProgramFileOrDirectory (Some \<lparr>FileName = ''mymodule.pp'', Content = ''locals''\<rparr>) None]"
    using SourceFiles_tree [of filepathJoin "Program mymodule" "''out/mymodule''"]
    by (simp add: mymodule_def)
  have "componentNodes (Nodes mainProgram) = [mymodule]"
    by (simp add: mainProgram_def)
  moreover have "files mainProgram = [\<lparr>SyntaxFile.Name = ''main.pp'', Bytes = ''config''\<rparr>]"
    by (simp add: mainProgram_def)
  moreover have "source mymodule = ''./mymodule''"
    by (simp add: mymodule_def)
  ultimately show ?thesis
    using SourceFiles_tree [of filepathJoin mainProgram "''out''"] inner Join_out_mymodule
    by simp
qed

section \<open>Properties of the component walk\<close>

lemma collect_keeps [rule_format]:
  "(\<forall>k c. fmlookup acc k = Some c \<longrightarrow> fmlookup (collectComponentsRecursive p acc) k = Some c)"
  "(\<forall>k c. fmlookup acc k = Some c \<longrightarrow> fmlookup (collectComponentsLoop ns acc) k = Some c)"
proof (induction p acc and ns acc rule: collectComponentsRecursive_collectComponentsLoop.induct)
  case (3 node ns components)
  show ?case
  proof (cases "DirPath node |\<in>| fmdom components")
    case True
    with 3 show ?thesis by simp
  next
    case False
    let ?c1 = "fmupd (DirPath node) node components"
    show ?thesis
    proof (intro allI impI)
      fix k c
      assume a: "fmlookup components k = Some c"
      with False have "k \<noteq> DirPath node" by (auto simp: fmdom_notI)
      with a have "fmlookup ?c1 k = Some c" by simp
      with 3(2) False have "fmlookup (collectComponentsRecursive (Program node) ?c1) k = Some c"
        by blast
      with 3(3) False have "fmlookup (collectComponentsLoop ns
          (collectComponentsRecursive (Program node) ?c1)) k = Some c"
        by blast
      with False show "fmlookup (collectComponentsLoop (ComponentNode node # ns) components) k
          = Some c"
        by simp
    qed
  qed
qed simp_all

lemma collectLoop_dom_mono: "fmdom' acc \<subseteq> fmdom' (collectComponentsLoop ns acc)"
proof
  fix k
  assume "k \<in> fmdom' acc"
  then obtain c where "fmlookup acc k = Some c" by (auto simp: fmlookup_dom'_iff)
  then have "fmlookup (collectComponentsLoop ns acc) k = Some c" by (rule collect_keeps(2))
  then show "k \<in> fmdom' (collectComponentsLoop ns acc)" by (simp add: fmlookup_dom'_iff)
qed

lemma collect_dom_mono: "fmdom' acc \<subseteq> fmdom' (collectComponentsRecursive p acc)"
  by (simp add: collectLoop_dom_mono)

text \<open>Every component node of the list has its directory among the keys afterwards.\<close>

lemma collectLoop_declared:
  "c \<in> set (componentNodes ns) \<Longrightarrow> DirPath c \<in> fmdom' (collectComponentsLoop ns acc)"
proof (induction ns arbitrary: acc)
  case Nil
  then show ?case by simp
next
  case (Cons n ns)
  show ?case
  proof (cases n)
    case (ComponentNode node)
    show ?thesis
    proof (cases "c = node")
      case True
      show ?thesis
      proof (cases "DirPath node |\<in>| fmdom acc")
        case seen: True
        then have "DirPath node \<in> fmdom' acc" by (simp add: fmdom'_alt_def)
        with collectLoop_dom_mono [of acc ns] seen show ?thesis
          by (auto simp: ComponentNode True)
      next
        case False
        let ?c1 = "fmupd (DirPath node) node acc"
        have "DirPath node \<in> fmdom' ?c1" by simp
        with collect_dom_mono [of ?c1 "Program node"]
        have "DirPath node \<in> fmdom' (collectComponentsRecursive (Program node) ?c1)"
          by blast
        with collectLoop_dom_mono [of "collectComponentsRecursive (Program node) ?c1" ns]
        have "DirPath node
            \<in> fmdom' (collectComponentsLoop ns (collectComponentsRecursive (Program node) ?c1))"
          by blast
        with False show ?thesis by (simp add: ComponentNode True)
      qed
    next
      case False
      with Cons.prems ComponentNode have "c \<in> set (componentNodes ns)" by simp
      then show ?thesis using Cons.IH by (simp add: ComponentNode)
    qed
  qed (use Cons in simp_all)
qed

text \<open>Every entry was in the map before, or is a component of the tree under its directory.\<close>

lemma collect_origin [rule_format]:
  "(\<forall>k c. fmlookup (collectComponentsRecursive p acc) k = Some c \<longrightarrow>
      fmlookup acc k = Some c \<or> (c \<in> set (allComponents p) \<and> k = DirPath c))"
  "(\<forall>k c. fmlookup (collectComponentsLoop ns acc) k = Some c \<longrightarrow>
      fmlookup acc k = Some c \<or> (c \<in> set (componentsBelow ns) \<and> k = DirPath c))"
proof (induction p acc and ns acc rule: collectComponentsRecursive_collectComponentsLoop.induct)
  case (3 node ns components)
  show ?case
  proof (cases "DirPath node |\<in>| fmdom components")
    case True
    with 3(1) show ?thesis by auto
  next
    case False
    let ?c1 = "fmupd (DirPath node) node components"
    let ?r1 = "collectComponentsRecursive (Program node) ?c1"
    show ?thesis
    proof (intro allI impI)
      fix k c
      assume "fmlookup (collectComponentsLoop (ComponentNode node # ns) components) k = Some c"
      with False have "fmlookup (collectComponentsLoop ns ?r1) k = Some c" by simp
      with 3(3) False have "fmlookup ?r1 k = Some c
          \<or> (c \<in> set (componentsBelow ns) \<and> k = DirPath c)"
        by blast
      moreover have "fmlookup ?c1 k = Some c
          \<or> (c \<in> set (allComponents (Program node)) \<and> k = DirPath c)"
        if "fmlookup ?r1 k = Some c"
        using 3(2) False that by blast
      moreover have "fmlookup components k = Some c \<or> (c = node \<and> k = DirPath c)"
        if "fmlookup ?c1 k = Some c"
        using that by (auto split: if_splits)
      ultimately show "fmlookup components k = Some c
          \<or> (c \<in> set (componentsBelow (ComponentNode node # ns)) \<and> k = DirPath c)"
        by auto
    qed
  qed
qed simp_all

text \<open>
  Every entry that the walk adds is closed: the components declared in its program have
  their directories among the keys.
\<close>

lemma collect_closed [rule_format]:
  "(\<forall>k c. fmlookup (collectComponentsRecursive p acc) k = Some c \<longrightarrow> k \<notin> fmdom' acc \<longrightarrow>
      (\<forall>c'\<in>set (componentNodes (Nodes (Program c))).
         DirPath c' \<in> fmdom' (collectComponentsRecursive p acc)))"
  "(\<forall>k c. fmlookup (collectComponentsLoop ns acc) k = Some c \<longrightarrow> k \<notin> fmdom' acc \<longrightarrow>
      (\<forall>c'\<in>set (componentNodes (Nodes (Program c))).
         DirPath c' \<in> fmdom' (collectComponentsLoop ns acc)))"
proof (induction p acc and ns acc rule: collectComponentsRecursive_collectComponentsLoop.induct)
  case (2 components)
  show ?case by (auto simp: fmlookup_dom'_iff)
next
  case (3 node ns components)
  show ?case
  proof (cases "DirPath node |\<in>| fmdom components")
    case True
    with 3(1) show ?thesis by simp
  next
    case False
    let ?c1 = "fmupd (DirPath node) node components"
    let ?r1 = "collectComponentsRecursive (Program node) ?c1"
    let ?r = "collectComponentsLoop ns ?r1"
    have r: "collectComponentsLoop (ComponentNode node # ns) components = ?r"
      using False by simp
    have sub: "fmdom' ?r1 \<subseteq> fmdom' ?r" by (rule collectLoop_dom_mono)
    have "\<forall>c'\<in>set (componentNodes (Nodes (Program c))). DirPath c' \<in> fmdom' ?r"
      if k: "fmlookup ?r k = Some c" "k \<notin> fmdom' components" for k c
    proof (cases "k \<in> fmdom' ?r1")
      case inner: True
      then obtain c0 where c0: "fmlookup ?r1 k = Some c0" by (auto simp: fmlookup_dom'_iff)
      then have "fmlookup ?r k = Some c0" by (rule collect_keeps(2))
      with k(1) have r1k: "fmlookup ?r1 k = Some c" using c0 by simp
      show ?thesis
      proof (cases "k \<in> fmdom' ?c1")
        case True
        with k(2) have kd: "k = DirPath node" by simp
        then have "fmlookup ?c1 k = Some node" by simp
        then have "fmlookup ?r1 k = Some node" by (rule collect_keeps(1))
        with r1k have "c = node" by simp
        moreover have "\<forall>c'\<in>set (componentNodes (Nodes (Program node))). DirPath c' \<in> fmdom' ?r1"
          using collectLoop_declared [of _ "Nodes (Program node)" ?c1] by simp
        ultimately show ?thesis using sub by blast
      next
        case False
        with 3(2) \<open>DirPath node |\<notin>| fmdom components\<close> r1k
        have "\<forall>c'\<in>set (componentNodes (Nodes (Program c))). DirPath c' \<in> fmdom' ?r1"
          by blast
        with sub show ?thesis by blast
      qed
    next
      case False
      with 3(3) \<open>DirPath node |\<notin>| fmdom components\<close> k(1) show ?thesis by blast
    qed
    then show ?thesis by (simp only: r) blast
  qed
qed simp_all

lemma closed_reaches_all:
  assumes closed: "\<forall>k c. fmlookup R k = Some c \<longrightarrow>
      (\<forall>c'\<in>set (componentNodes (Nodes (Program c))). DirPath c' \<in> fmdom' R)"
    and entries: "\<forall>k c. fmlookup R k = Some c \<longrightarrow> c \<in> U \<and> k = DirPath c"
    and same: "\<forall>c\<in>U. \<forall>c'\<in>U. DirPath c = DirPath c' \<longrightarrow> Program c = Program c'"
  shows "set (allComponents p) \<subseteq> U \<longrightarrow>
      (\<forall>c\<in>set (componentNodes (Nodes p)). DirPath c \<in> fmdom' R) \<longrightarrow>
      (\<forall>c\<in>set (allComponents p). DirPath c \<in> fmdom' R)"
    and "set (componentsBelow ns) \<subseteq> U \<longrightarrow>
      (\<forall>c\<in>set (componentNodes ns). DirPath c \<in> fmdom' R) \<longrightarrow>
      (\<forall>c\<in>set (componentsBelow ns). DirPath c \<in> fmdom' R)"
proof (induction p and ns rule: allComponents_componentsBelow.induct)
  case (3 node ns)
  show ?case
  proof (intro impI)
    assume u: "set (componentsBelow (ComponentNode node # ns)) \<subseteq> U"
      and d: "\<forall>c\<in>set (componentNodes (ComponentNode node # ns)). DirPath c \<in> fmdom' R"
    from d have dn: "DirPath node \<in> fmdom' R" by simp
    then obtain c0 where c0: "fmlookup R (DirPath node) = Some c0"
      by (auto simp: fmlookup_dom'_iff)
    with entries have "c0 \<in> U" "DirPath node = DirPath c0" by blast+
    moreover from u have "node \<in> U" by simp
    ultimately have "Program node = Program c0" using same by blast
    with closed c0
    have "\<forall>c\<in>set (componentNodes (Nodes (Program node))). DirPath c \<in> fmdom' R"
      by simp
    moreover from u have "set (allComponents (Program node)) \<subseteq> U" by simp
    ultimately have inner: "\<forall>c\<in>set (allComponents (Program node)). DirPath c \<in> fmdom' R"
      using 3(1) by blast
    from u d have "\<forall>c\<in>set (componentsBelow ns). DirPath c \<in> fmdom' R"
      using 3(2) by simp
    with inner dn
    show "\<forall>c\<in>set (componentsBelow (ComponentNode node # ns)). DirPath c \<in> fmdom' R"
      by auto
  qed
qed simp_all

lemma CollectComponents_entries:
  "fmlookup (CollectComponents p) k = Some c \<Longrightarrow> c \<in> set (allComponents p) \<and> k = DirPath c"
  using collect_origin(1) [of p fmempty k c] by (simp add: CollectComponents_def)

lemma CollectComponents_complete:
  assumes "consistent p"
  shows "fmdom' (CollectComponents p) = DirPath ` set (allComponents p)"
proof
  show "fmdom' (CollectComponents p) \<subseteq> DirPath ` set (allComponents p)"
  proof
    fix k
    assume "k \<in> fmdom' (CollectComponents p)"
    then obtain c where "fmlookup (CollectComponents p) k = Some c"
      by (auto simp: fmlookup_dom'_iff)
    from CollectComponents_entries [OF this] show "k \<in> DirPath ` set (allComponents p)"
      by blast
  qed
next
  let ?R = "CollectComponents p"
  have closed: "\<forall>k c. fmlookup ?R k = Some c \<longrightarrow>
      (\<forall>c'\<in>set (componentNodes (Nodes (Program c))). DirPath c' \<in> fmdom' ?R)"
    using collect_closed(1) [of p fmempty] by (simp add: CollectComponents_def)
  have entries: "\<forall>k c. fmlookup ?R k = Some c \<longrightarrow> c \<in> set (allComponents p) \<and> k = DirPath c"
    using CollectComponents_entries [of p] by blast
  have same: "\<forall>c\<in>set (allComponents p). \<forall>c'\<in>set (allComponents p).
      DirPath c = DirPath c' \<longrightarrow> Program c = Program c'"
    using assms by (simp only: consistent_def)
  have declared: "\<forall>c\<in>set (componentNodes (Nodes p)). DirPath c \<in> fmdom' ?R"
    using collectLoop_declared [of _ "Nodes p" fmempty] by (simp add: CollectComponents_def)
  from closed_reaches_all(1) [OF closed entries same, of p] declared
  have "\<forall>c\<in>set (allComponents p). DirPath c \<in> fmdom' ?R"
    by blast
  then show "DirPath ` set (allComponents p) \<subseteq> fmdom' (CollectComponents p)" by blast
qed

text \<open>
  The logged walk computes the same map, and what it appends to the log are components
  of pairwise different directories: exactly the directories that the walk adds.
\<close>

lemma logged_walk:
  "\<exists>new. collectComponentsLogged p acc log = (collectComponentsRecursive p acc, log @ new)
     \<and> distinct (map DirPath new)
     \<and> DirPath ` set new = fmdom' (collectComponentsRecursive p acc) - fmdom' acc"
  "\<exists>new. collectLoopLogged ns acc log = (collectComponentsLoop ns acc, log @ new)
     \<and> distinct (map DirPath new)
     \<and> DirPath ` set new = fmdom' (collectComponentsLoop ns acc) - fmdom' acc"
proof (induction p acc log and ns acc log rule: collectComponentsLogged_collectLoopLogged.induct)
  case (1 p components log)
  then show ?case by simp
next
  case (2 components log)
  show ?case by simp
next
  case (3 node ns components log)
  show ?case
  proof (cases "DirPath node |\<in>| fmdom components")
    case True
    with 3(1) show ?thesis by simp
  next
    case False
    let ?c1 = "fmupd (DirPath node) node components"
    let ?r1 = "collectComponentsRecursive (Program node) ?c1"
    let ?r = "collectComponentsLoop ns ?r1"
    from 3(2) [OF False] obtain new1 where n1:
      "collectComponentsLogged (Program node) ?c1 (log @ [node]) = (?r1, (log @ [node]) @ new1)"
      "distinct (map DirPath new1)"
      "DirPath ` set new1 = fmdom' ?r1 - fmdom' ?c1"
      by blast
    from 3(3) [OF False n1(1) [symmetric]] obtain new2 where n2:
      "collectLoopLogged ns ?r1 ((log @ [node]) @ new1) = (?r, ((log @ [node]) @ new1) @ new2)"
      "distinct (map DirPath new2)"
      "DirPath ` set new2 = fmdom' ?r - fmdom' ?r1"
      by blast
    have s1: "fmdom' ?c1 \<subseteq> fmdom' ?r1" by (rule collect_dom_mono)
    have s2: "fmdom' ?r1 \<subseteq> fmdom' ?r" by (rule collectLoop_dom_mono)
    have d: "DirPath node \<notin> fmdom' components"
      using False by (simp add: fmdom'_alt_def)
    have c1: "fmdom' ?c1 = insert (DirPath node) (fmdom' components)" by simp
    have run: "collectLoopLogged (ComponentNode node # ns) components log
        = (collectComponentsLoop (ComponentNode node # ns) components,
           log @ (node # new1 @ new2))"
      using False n1(1) n2(1) by simp
    have dist: "distinct (map DirPath (node # new1 @ new2))"
    proof -
      have "DirPath node \<notin> DirPath ` set new1" using n1(3) c1 by blast
      moreover have "DirPath node \<notin> DirPath ` set new2" using n2(3) s1 c1 by blast
      moreover have "DirPath ` set new1 \<inter> DirPath ` set new2 = {}" using n1(3) n2(3) by blast
      ultimately show ?thesis using n1(2) n2(2) by simp
    qed
    have keys: "DirPath ` set (node # new1 @ new2)
        = fmdom' (collectComponentsLoop (ComponentNode node # ns) components)
            - fmdom' components"
    proof -
      have "DirPath ` set (node # new1 @ new2)
          = insert (DirPath node) ((fmdom' ?r1 - fmdom' ?c1) \<union> (fmdom' ?r - fmdom' ?r1))"
        using n1(3) n2(3) by (simp add: image_Un)
      also have "\<dots> = fmdom' ?r - fmdom' components"
        using s1 s2 d c1 by blast
      finally show ?thesis using False by simp
    qed
    from run dist keys show ?thesis by blast
  qed
qed simp_all

lemma logged_components:
  "fst (collectComponentsLogged p fmempty []) = CollectComponents p"
  using logged_walk(1) [of p fmempty "[]"] by (auto simp: CollectComponents_def)

lemma descents_keys:
  "distinct (map DirPath (descents p))"
  "DirPath ` set (descents p) = fmdom' (CollectComponents p)"
  using logged_walk(1) [of p fmempty "[]"]
  by (auto simp: CollectComponents_def descents_def)

lemma count_list_distinct: "distinct xs \<Longrightarrow> x \<in> set xs \<Longrightarrow> count_list xs x = 1"
  by (induction xs) auto

text \<open>
  Claim C2, as amended. \<open>CollectComponents\<close> returns a map from directory to component.
  Every entry is a component of the tree under its own directory. Every component
  declared in the root, and every component declared in the program of an entry, has its
  directory among the keys; so in a tree in which components of one directory have the
  same program the map has exactly one entry for each distinct directory of the
  components of the tree. A component whose directory is already a key is passed over
  (not stored, not descended into), and an entry once stored is never replaced. The walk
  descends exactly once for each key of the result: the logged walk computes the same
  map, and each key is the directory of exactly one logged descent.
\<close>

theorem CollectComponents_once:
  "(\<forall>k c. fmlookup (CollectComponents p) k = Some c \<longrightarrow>
       c \<in> set (allComponents p) \<and> k = DirPath c)
   \<and> (\<forall>c\<in>set (componentNodes (Nodes p)). DirPath c \<in> fmdom' (CollectComponents p))
   \<and> (\<forall>k c. fmlookup (CollectComponents p) k = Some c \<longrightarrow>
       (\<forall>c'\<in>set (componentNodes (Nodes (Program c))).
          DirPath c' \<in> fmdom' (CollectComponents p)))
   \<and> (consistent p \<longrightarrow> fmdom' (CollectComponents p) = DirPath ` set (allComponents p))
   \<and> (DirPath node |\<in>| fmdom components \<longrightarrow>
       collectComponentsLoop (ComponentNode node # ns) components
         = collectComponentsLoop ns components)
   \<and> (\<forall>k c. fmlookup components k = Some c \<longrightarrow>
       fmlookup (collectComponentsRecursive q components) k = Some c)
   \<and> fst (collectComponentsLogged p fmempty []) = CollectComponents p
   \<and> DirPath ` set (descents p) = fmdom' (CollectComponents p)
   \<and> (\<forall>k\<in>fmdom' (CollectComponents p). count_list (map DirPath (descents p)) k = 1)"
proof (intro conjI)
  show "\<forall>k c. fmlookup (CollectComponents p) k = Some c \<longrightarrow>
      c \<in> set (allComponents p) \<and> k = DirPath c"
    using CollectComponents_entries [of p] by blast
  show "\<forall>c\<in>set (componentNodes (Nodes p)). DirPath c \<in> fmdom' (CollectComponents p)"
    using collectLoop_declared [of _ "Nodes p" fmempty] by (simp add: CollectComponents_def)
  show "\<forall>k c. fmlookup (CollectComponents p) k = Some c \<longrightarrow>
      (\<forall>c'\<in>set (componentNodes (Nodes (Program c))).
         DirPath c' \<in> fmdom' (CollectComponents p))"
    using collect_closed(1) [of p fmempty] by (simp add: CollectComponents_def)
  show "consistent p \<longrightarrow> fmdom' (CollectComponents p) = DirPath ` set (allComponents p)"
    using CollectComponents_complete [of p] by blast
  show "DirPath node |\<in>| fmdom components \<longrightarrow>
      collectComponentsLoop (ComponentNode node # ns) components
        = collectComponentsLoop ns components"
    by simp
  show "\<forall>k c. fmlookup components k = Some c \<longrightarrow>
      fmlookup (collectComponentsRecursive q components) k = Some c"
    using collect_keeps(1) [of components _ _ q] by blast
  show "fst (collectComponentsLogged p fmempty []) = CollectComponents p"
    by (rule logged_components)
  show "DirPath ` set (descents p) = fmdom' (CollectComponents p)"
    by (rule descents_keys)
  show "\<forall>k\<in>fmdom' (CollectComponents p). count_list (map DirPath (descents p)) k = 1"
    using descents_keys [of p] count_list_distinct [of "map DirPath (descents p)"]
    by auto
qed

declare allComponents.simps [simp del]

lemma twoUses_all: "allComponents twoUses = [firstUse, innerModule, secondUse, innerModule]"
  by (simp add: allComponents.simps twoUses_def firstUse_def secondUse_def moduleProgram_def
      innerModule_def)

lemma twoUses_descents: "descents twoUses = [firstUse, innerModule]"
  by (simp add: descents_def twoUses_def firstUse_def secondUse_def moduleProgram_def
      innerModule_def DirPath_def)

theorem CollectComponents_once_witness:
  "consistent twoUses
   \<and> DirPath firstUse = ''./mymodule'' \<and> DirPath secondUse = ''./mymodule''
   \<and> fmdom' (CollectComponents twoUses) = {''./mymodule'', ''mymodule/inner''}
   \<and> fmlookup (CollectComponents twoUses) ''./mymodule'' = Some firstUse
   \<and> descents twoUses = [firstUse, innerModule]
   \<and> count_list (map DirPath (descents twoUses)) ''./mymodule'' = 1"
proof -
  have d: "DirPath firstUse = ''./mymodule''" "DirPath secondUse = ''./mymodule''"
    "DirPath innerModule = ''mymodule/inner''"
    by (simp_all add: DirPath_def firstUse_def secondUse_def innerModule_def)
  have p: "Program firstUse = moduleProgram" "Program secondUse = moduleProgram"
    by (simp_all add: firstUse_def secondUse_def)
  have c: "consistent twoUses"
    unfolding consistent_def twoUses_all using d p by auto
  note t = CollectComponents_once [of twoUses firstUse fmempty "[]" twoUses]
  from t c have "fmdom' (CollectComponents twoUses) = DirPath ` set (allComponents twoUses)"
    by blast
  then have dom: "fmdom' (CollectComponents twoUses) = {''./mymodule'', ''mymodule/inner''}"
    using d by (auto simp: twoUses_all)
  then have "''./mymodule'' \<in> fmdom' (CollectComponents twoUses)" by simp
  with t have cnt: "count_list (map DirPath (descents twoUses)) ''./mymodule'' = 1"
    by blast
  have e: "fmlookup (CollectComponents twoUses) ''./mymodule'' = Some firstUse"
    by code_simp
  from c d dom e cnt twoUses_descents show ?thesis by blast
qed

text \<open>
  Claim C2 as stated, for every tree of programs, fails. In a tree in which two
  components of one directory have different programs, the second is passed over
  together with what only its program declares: the directory \<open>/w/a/y\<close> belongs to a
  component of the tree and is not a key of the result.
\<close>

theorem CollectComponents_misses_directory:
  "leafY \<in> set (allComponents splitTree)
   \<and> DirPath leafY = ''/w/a/y''
   \<and> ''/w/a/y'' \<notin> fmdom' (CollectComponents splitTree)
   \<and> fmdom' (CollectComponents splitTree) = {''/w/a'', ''/w/a/x''}
   \<and> DirPath ` set (allComponents splitTree) = {''/w/a'', ''/w/a/x'', ''/w/a/y''}
   \<and> fmdom' (CollectComponents splitTree) \<noteq> DirPath ` set (allComponents splitTree)"
proof -
  have d: "DirPath firstA = ''/w/a''" "DirPath secondA = ''/w/a''"
    "DirPath leafX = ''/w/a/x''" "DirPath leafY = ''/w/a/y''"
    by (simp_all add: DirPath_def firstA_def secondA_def leafX_def leafY_def)
  have all: "allComponents splitTree = [firstA, leafX, secondA, leafY]"
    by (simp add: allComponents.simps splitTree_def firstA_def secondA_def leafX_def leafY_def)
  have dom: "fmdom' (CollectComponents splitTree) = {''/w/a'', ''/w/a/x''}"
    by code_simp
  have dirs: "DirPath ` set (allComponents splitTree) = {''/w/a'', ''/w/a/x'', ''/w/a/y''}"
    using d by (auto simp: all)
  have miss: "''/w/a/y'' \<notin> fmdom' (CollectComponents splitTree)"
    by (simp add: dom)
  have "''/w/a/y'' \<in> DirPath ` set (allComponents splitTree)"
    by (simp add: dirs)
  with miss have ne: "fmdom' (CollectComponents splitTree)
      \<noteq> DirPath ` set (allComponents splitTree)"
    by blast
  from all d(4) miss dom dirs ne show ?thesis by simp
qed

section \<open>Properties of the snapshot walk\<close>





















end
